theory Spec2Isabelle
  imports Main "HOL-Library.Sublist"
begin

section \<open>Strings of the editor\<close>

text \<open>
  A JavaScript string is modelled as a \<^typ>\<open>string\<close> whose characters are the code points
  below 256. On this range \<open>toLowerCase\<close> acts character by character: the capital
  letters are \<open>A\<close> to \<open>Z\<close> and U+00C0 to U+00DE without the multiplication sign U+00D7, and
  each is moved up by 32; every other character is left alone.
\<close>

definition toLowerChar :: "char \<Rightarrow> char" where
  "toLowerChar c =
     (let n = (of_char c :: nat)
      in if (65 \<le> n \<and> n \<le> 90) \<or> (192 \<le> n \<and> n \<le> 222 \<and> n \<noteq> 215)
         then char_of (n + 32) else c)"

definition toLowerCase :: "string \<Rightarrow> string" where
  "toLowerCase s = map toLowerChar s"

section \<open>Trie.js\<close>

text \<open>
  \<open>class TrieNode { children = {}; isEnd = false }\<close>. The \<open>children\<close> object is an
  association list kept in the order in which \<open>Object.entries\<close> enumerates it: keys that
  are array indices (here the single digits) first, in ascending order, then all other keys
  in the order of their creation.
\<close>

datatype TrieNode = TrieNode (children: "(char \<times> TrieNode) list") (isEnd: bool)

datatype Trie = Trie (root: TrieNode)

definition newTrieNode :: TrieNode where
  "newTrieNode = TrieNode [] False"

definition newTrie :: Trie where
  "newTrie = Trie newTrieNode"

definition isIndexKey :: "char \<Rightarrow> bool" where
  "isIndexKey c = (48 \<le> (of_char c :: nat) \<and> (of_char c :: nat) \<le> 57)"

text \<open>\<open>children[ch] = v\<close> for a key that the object does not have yet.\<close>

fun addChild :: "char \<Rightarrow> TrieNode \<Rightarrow> (char \<times> TrieNode) list \<Rightarrow> (char \<times> TrieNode) list" where
  "addChild k v [] = [(k, v)]"
| "addChild k v ((k', v') # cs) =
     (if isIndexKey k \<and> (\<not> isIndexKey k' \<or> (of_char k :: nat) < of_char k')
      then (k, v) # (k', v') # cs
      else (k', v') # addChild k v cs)"

text \<open>The child under an existing key is changed in place: the key keeps its position.\<close>

fun updChild :: "char \<Rightarrow> TrieNode \<Rightarrow> (char \<times> TrieNode) list \<Rightarrow> (char \<times> TrieNode) list" where
  "updChild k v [] = []"
| "updChild k v ((k', v') # cs) =
     (if k = k' then (k, v) # cs else (k', v') # updChild k v cs)"

text \<open>
  The loop of \<open>insert\<close>, started at a node, over the characters that are left:
  \<open>if (!node.children[ch]) node.children[ch] = new TrieNode(); node = node.children[ch];\<close>
  and, after the loop, \<open>node.isEnd = true\<close>.
\<close>

fun insertFrom :: "string \<Rightarrow> TrieNode \<Rightarrow> TrieNode" where
  "insertFrom [] (TrieNode cs e) = TrieNode cs True"
| "insertFrom (ch # w) (TrieNode cs e) =
     (case map_of cs ch of
        None \<Rightarrow> TrieNode (addChild ch (insertFrom w newTrieNode) cs) e
      | Some node \<Rightarrow> TrieNode (updChild ch (insertFrom w node) cs) e)"

text \<open>\<open>Trie.insert(word)\<close>; the trie is passed in and the changed trie is returned.\<close>

definition insert_word :: "Trie \<Rightarrow> string \<Rightarrow> Trie" where
  "insert_word t word = Trie (insertFrom (toLowerCase word) (root t))"

text \<open>
  The first loop of \<open>getSuggestions\<close>: follow the characters from a node; \<open>None\<close> is the
  early \<open>return []\<close>.
\<close>

fun walk :: "string \<Rightarrow> TrieNode \<Rightarrow> TrieNode option" where
  "walk [] node = Some node"
| "walk (ch # w) node =
     (case map_of (children node) ch of
        None \<Rightarrow> None
      | Some next \<Rightarrow> walk w next)"

text \<open>
  The closure \<open>dfs(curr, path)\<close>; the array \<open>results\<close> it pushes to is passed through.
  \<open>dfsEntries\<close> is the \<open>for\<close> loop over \<open>Object.entries(curr.children)\<close>.
\<close>

fun dfs :: "string \<Rightarrow> int \<Rightarrow> TrieNode \<Rightarrow> string \<Rightarrow> string list \<Rightarrow> string list"
  and dfsEntries :: "string \<Rightarrow> int \<Rightarrow> (char \<times> TrieNode) list \<Rightarrow> string \<Rightarrow> string list \<Rightarrow> string list"
where
  "dfs pfx limit (TrieNode cs e) path results =
     (if int (length results) \<ge> limit then results
      else dfsEntries pfx limit cs path (if e then results @ [pfx @ path] else results))"
| "dfsEntries pfx limit [] path results = results"
| "dfsEntries pfx limit ((ch, next) # cs) path results =
     dfsEntries pfx limit cs path (dfs pfx limit next (path @ [ch]) results)"

definition getSuggestions :: "Trie \<Rightarrow> string \<Rightarrow> int \<Rightarrow> string list" where
  "getSuggestions t pfx limit =
     (case walk (toLowerCase pfx) (root t) of
        None \<Rightarrow> []
      | Some node \<Rightarrow> dfs pfx limit node [] [])"

text \<open>The words preloaded by the editor, and the trie they give.\<close>

definition seedWords :: "string list" where
  "seedWords = [''apple'', ''application'', ''appetite'', ''banana'', ''band'', ''banner'',
                ''cat'', ''cater'', ''catalog'']"

definition seedTrie :: Trie where
  "seedTrie = foldl insert_word newTrie seedWords"

section \<open>TextEditor.jsx\<close>

subsection \<open>Platform functions the editor calls\<close>

text \<open>
  The characters below 256 that \<open>\s\<close> and \<open>trim\<close> treat as white space: tab, line feed,
  vertical tab, form feed, carriage return, space and the no-break space.
\<close>

definition isWhiteSpace :: "char \<Rightarrow> bool" where
  "isWhiteSpace c = ((of_char c :: nat) \<in> {9, 10, 11, 12, 13, 32, 160})"

definition trim :: "string \<Rightarrow> string" where
  "trim s = rev (dropWhile isWhiteSpace (rev (dropWhile isWhiteSpace s)))"

text \<open>
  \<open>value.split(/\s+/)\<close>: the pieces between maximal runs of white space. The head of the
  result is the piece being read; the flag says that the previous character was white space.
  A run at either end of the string gives an empty piece there, and the empty string gives
  one empty piece.
\<close>

fun splitFrom :: "bool \<Rightarrow> string \<Rightarrow> string list" where
  "splitFrom inRun [] = [[]]"
| "splitFrom inRun (c # cs) =
     (if isWhiteSpace c then (if inRun then splitFrom True cs else [] # splitFrom True cs)
      else (case splitFrom False cs of
              [] \<Rightarrow> [[c]]
            | w # ws \<Rightarrow> (c # w) # ws))"

definition splitWhitespace :: "string \<Rightarrow> string list" where
  "splitWhitespace s = splitFrom False s"

text \<open>
  \<open>a % b\<close> on integers with \<open>b \<noteq> 0\<close>: the remainder has the sign of the dividend.
  (For \<open>b = 0\<close> JavaScript gives \<open>NaN\<close>; both callers test the divisor first.)
\<close>

definition jsRem :: "int \<Rightarrow> int \<Rightarrow> int" where
  "jsRem a b = sgn a * (\<bar>a\<bar> mod \<bar>b\<bar>)"

subsection \<open>Regular expressions\<close>

text \<open>
  \<open>new RegExp(source)\<close> and \<open>String.prototype.replace\<close> for a regular expression without
  flags, on a fragment of the pattern syntax: pattern characters, \<open>.\<close>, the assertions \<open>^\<close>
  and \<open>$\<close>, the greedy quantifiers \<open>*\<close>, \<open>+\<close> and \<open>?\<close> on a single character, and \<open>|\<close>.
  A quantifier with nothing to repeat is the \<open>SyntaxError\<close> that the constructor throws.
  A source that uses anything else (a backslash, a parenthesis, a bracket, a brace, a lazy
  quantifier) is answered \<open>OutsideFragment\<close>: the model says nothing about it.
\<close>

datatype jsError = SyntaxError | OutsideFragment

datatype atom = PatternCharacter char | AnyCharacter

datatype quantifier = Once | ZeroOrMore | OneOrMore | ZeroOrOne

datatype rterm = Atom atom quantifier | LineStart | LineEnd

type_synonym alternative = "rterm list"

definition quantifierOf :: "char \<Rightarrow> quantifier" where
  "quantifierOf c = (if c = CHR ''*'' then ZeroOrMore else if c = CHR ''+'' then OneOrMore else ZeroOrOne)"

text \<open>
  The parser reads the source from left to right; \<open>cur\<close> is the alternative being read and
  \<open>alts\<close> the alternatives already closed by a \<open>|\<close>, both in reverse.
\<close>

fun parsePattern :: "string \<Rightarrow> rterm list \<Rightarrow> alternative list \<Rightarrow> jsError + alternative list" where
  "parsePattern [] cur alts = Inr (rev (rev cur # alts))"
| "parsePattern (c # cs) cur alts =
     (if c = CHR ''|'' then parsePattern cs [] (rev cur # alts)
      else if c = CHR ''^'' then parsePattern cs (LineStart # cur) alts
      else if c = CHR ''$'' then parsePattern cs (LineEnd # cur) alts
      else if c \<in> set ''*+?'' then
        (case cur of
           Atom a Once # rest \<Rightarrow> parsePattern cs (Atom a (quantifierOf c) # rest) alts
         | Atom a q # rest \<Rightarrow> (if c = CHR ''?'' then Inl OutsideFragment else Inl SyntaxError)
         | _ \<Rightarrow> Inl SyntaxError)
      else if c \<in> set [CHR 0x5C, CHR ''('', CHR '')'', CHR ''['', CHR '']'', CHR ''{'', CHR ''}'']
        then Inl OutsideFragment
      else parsePattern cs (Atom (if c = CHR ''.'' then AnyCharacter else PatternCharacter c) Once # cur) alts)"

definition newRegExp :: "string \<Rightarrow> jsError + alternative list" where
  "newRegExp source = parsePattern source [] []"

text \<open>\<open>.\<close> matches every character but the line terminators.\<close>

fun atomMatches :: "atom \<Rightarrow> char \<Rightarrow> bool" where
  "atomMatches (PatternCharacter p) c = (p = c)"
| "atomMatches AnyCharacter c = (c \<noteq> CHR 0x0A \<and> c \<noteq> CHR 0x0D)"

text \<open>
  The backtracking matcher: the terms of one alternative against the input from the current
  position on; \<open>atStart\<close> says that the position is the start of the input. The result is
  the input left after the first match in the matcher's order of preference (a greedy
  quantifier takes as many characters as it can and gives them back one by one).
\<close>

fun matchTerms :: "rterm list \<Rightarrow> string \<Rightarrow> bool \<Rightarrow> string option" where
  "matchTerms [] s atStart = Some s"
| "matchTerms (LineStart # ts) s atStart = (if atStart then matchTerms ts s atStart else None)"
| "matchTerms (LineEnd # ts) s atStart = (if s = [] then matchTerms ts s atStart else None)"
| "matchTerms (Atom a Once # ts) [] atStart = None"
| "matchTerms (Atom a Once # ts) (c # cs) atStart =
     (if atomMatches a c then matchTerms ts cs False else None)"
| "matchTerms (Atom a OneOrMore # ts) [] atStart = None"
| "matchTerms (Atom a OneOrMore # ts) (c # cs) atStart =
     (if atomMatches a c then matchTerms (Atom a ZeroOrMore # ts) cs False else None)"
| "matchTerms (Atom a ZeroOrMore # ts) [] atStart = matchTerms ts [] atStart"
| "matchTerms (Atom a ZeroOrMore # ts) (c # cs) atStart =
     (if atomMatches a c then
        (case matchTerms (Atom a ZeroOrMore # ts) cs False of
           Some r \<Rightarrow> Some r
         | None \<Rightarrow> matchTerms ts (c # cs) atStart)
      else matchTerms ts (c # cs) atStart)"
| "matchTerms (Atom a ZeroOrOne # ts) [] atStart = matchTerms ts [] atStart"
| "matchTerms (Atom a ZeroOrOne # ts) (c # cs) atStart =
     (if atomMatches a c then
        (case matchTerms ts cs False of
           Some r \<Rightarrow> Some r
         | None \<Rightarrow> matchTerms ts (c # cs) atStart)
      else matchTerms ts (c # cs) atStart)"

text \<open>The alternatives are tried from left to right.\<close>

fun matchAlternatives :: "alternative list \<Rightarrow> string \<Rightarrow> bool \<Rightarrow> string option" where
  "matchAlternatives [] s atStart = None"
| "matchAlternatives (alt # alts) s atStart =
     (case matchTerms alt s atStart of
        Some r \<Rightarrow> Some r
      | None \<Rightarrow> matchAlternatives alts s atStart)"

text \<open>
  The search for the leftmost match: \<open>preceding\<close> is the input already passed. The result is
  the input before the match, the match, and the input after it.
\<close>

fun execFrom :: "alternative list \<Rightarrow> string \<Rightarrow> string \<Rightarrow> (string \<times> string \<times> string) option" where
  "execFrom re preceding [] =
     (case matchAlternatives re [] (preceding = []) of
        Some r \<Rightarrow> Some (preceding, [], r)
      | None \<Rightarrow> None)"
| "execFrom re preceding (c # cs) =
     (case matchAlternatives re (c # cs) (preceding = []) of
        Some r \<Rightarrow> Some (preceding, take (length (c # cs) - length r) (c # cs), r)
      | None \<Rightarrow> execFrom re (preceding @ [c]) cs)"

text \<open>
  The replacement text of \<open>replace\<close> for a pattern without groups: \<open>$$\<close> is a dollar sign,
  \<open>$&\<close> the match, \<open>$`\<close> the input before it and \<open>$'\<close> the input after it; any other
  character, a dollar sign too, stands for itself.
\<close>

fun getSubstitution :: "string \<Rightarrow> string \<Rightarrow> string \<Rightarrow> string \<Rightarrow> string" where
  "getSubstitution preceding matched following (d # c # r) =
     (if d = CHR ''$'' \<and> c = CHR ''$'' then CHR ''$'' # getSubstitution preceding matched following r
      else if d = CHR ''$'' \<and> c = CHR ''&'' then matched @ getSubstitution preceding matched following r
      else if d = CHR ''$'' \<and> c = CHR 0x60 then preceding @ getSubstitution preceding matched following r
      else if d = CHR ''$'' \<and> c = CHR 0x27 then following @ getSubstitution preceding matched following r
      else d # getSubstitution preceding matched following (c # r))"
| "getSubstitution preceding matched following r = r"

text \<open>\<open>value.replace(new RegExp(source), replacement)\<close>: the first match only.\<close>

definition replaceRegExp :: "string \<Rightarrow> string \<Rightarrow> string \<Rightarrow> jsError + string" where
  "replaceRegExp source replacement value =
     (case newRegExp source of
        Inl err \<Rightarrow> Inl err
      | Inr re \<Rightarrow>
          (case execFrom re [] value of
             None \<Rightarrow> Inr value
           | Some (preceding, matched, following) \<Rightarrow>
               Inr (preceding @ getSubstitution preceding matched following replacement @ following)))"

subsection \<open>The editor\<close>

text \<open>The state of the component: one field for each \<open>useState\<close> (\<open>textValue\<close> is the
  state variable \<open>text\<close>).\<close>

record editor =
  textValue :: string
  pattern :: string
  matches :: "nat list"
  current :: int
  suggestions :: "string list"

definition initialEditor :: editor where
  "initialEditor =
     \<lparr>textValue = ''Type here. Try words like 'ban', 'app', or misspell a word like 'recieve'.'',
      pattern = [], matches = [], current = - 1, suggestions = []\<rparr>"

text \<open>
  \<open>handleTextChange(e)\<close> with \<open>value = e.target.value\<close>. \<open>getCorrection\<close> is imported from
  \<open>SpellChecker.js\<close>, which is not among the sources, and is a parameter here; so is the
  trie the component holds. An exception thrown by the \<open>RegExp\<close> constructor leaves the
  handler before either setter is called.
\<close>

definition handleTextChange ::
  "(string \<Rightarrow> string) \<Rightarrow> Trie \<Rightarrow> string \<Rightarrow> editor \<Rightarrow> jsError + editor" where
  "handleTextChange getCorrection trie value st =
     (let words = splitWhitespace value;
          lastWord = last words
      in if length lastWord > 2 then
           (let corrected = getCorrection lastWord
            in case (if corrected \<noteq> lastWord
                     then replaceRegExp (lastWord @ ''$'') corrected value
                     else Inr value) of
                 Inl err \<Rightarrow> Inl err
               | Inr value' \<Rightarrow>
                   Inr (st\<lparr>suggestions := getSuggestions trie lastWord 3, textValue := value'\<rparr>))
         else Inr (st\<lparr>suggestions := [], textValue := value\<rparr>))"

text \<open>
  The effect that runs when \<open>text\<close> or \<open>pattern\<close> has changed. \<open>kmpSearch\<close> is imported
  from \<open>KMP.js\<close>, which is not among the sources, and is a parameter here.
\<close>

definition searchUpdate :: "(string \<Rightarrow> string \<Rightarrow> nat list) \<Rightarrow> editor \<Rightarrow> editor" where
  "searchUpdate kmpSearch st =
     (if trim (pattern st) = [] then st\<lparr>matches := [], current := - 1\<rparr>
      else (let m = kmpSearch (textValue st) (pattern st)
            in st\<lparr>matches := m, current := (if length m \<noteq> 0 then 0 else - 1)\<rparr>))"

text \<open>The handlers of the buttons \<open>Prev\<close> and \<open>Next\<close>.\<close>

definition prevMatch :: "editor \<Rightarrow> editor" where
  "prevMatch st =
     st\<lparr>current := (if length (matches st) \<noteq> 0
                     then jsRem (current st - 1 + int (length (matches st))) (int (length (matches st)))
                     else - 1)\<rparr>"

definition nextMatch :: "editor \<Rightarrow> editor" where
  "nextMatch st =
     st\<lparr>current := (if length (matches st) \<noteq> 0
                     then jsRem (current st + 1) (int (length (matches st)))
                     else - 1)\<rparr>"

section \<open>KMP.js: the pattern matcher\<close>

text \<open>
  Modelled from the spec: \<open>KMP.js\<close>, which exports \<open>kmpSearch\<close>, is not among the
  sources. The definitions below follow the words of the specification of
  \<open>PatternMatcher.findAll\<close>.

  The partial-match table gives, for each prefix length \<open>k\<close> of the pattern, the length of
  the longest proper prefix of \<open>pattern[0..k)\<close> that is also a suffix of it.
\<close>

definition longestBorder :: "'a list \<Rightarrow> nat" where
  "longestBorder s =
     (case find (\<lambda>l. take l s = drop (length s - l) s) (rev [0..<length s]) of
        Some l \<Rightarrow> l
      | None \<Rightarrow> 0)"

text \<open>
  Modelled from the spec: the partial-match table of the missing \<open>KMP.js\<close>, as the function
  from the prefix length \<open>k\<close> to its entry.
\<close>

definition failureTable :: "'a list \<Rightarrow> nat \<Rightarrow> nat" where
  "failureTable p k = longestBorder (take k p)"

text \<open>
  Modelled from the spec: the character of the pattern at an index (\<open>KMP.js\<close> is missing);
  there is none from the length on.
\<close>

definition charAt :: "'a list \<Rightarrow> nat \<Rightarrow> 'a option" where
  "charAt p j = (if j < length p then Some (p ! j) else None)"

text \<open>
  Modelled from the spec: the fall-back of the scan (\<open>KMP.js\<close> is missing). On a mismatch
  the matched-prefix length \<open>j\<close> falls back to the table's value instead of restarting
  from zero.
\<close>

function fallBack :: "'a list \<Rightarrow> 'a \<Rightarrow> nat \<Rightarrow> nat" where
  "fallBack p c j =
     (if 0 < j \<and> charAt p j \<noteq> Some c then fallBack p c (failureTable p j) else j)"
  by pat_completeness auto
termination
proof (relation "measure (\<lambda>(p, c, j). j)")
  show "wf (measure (\<lambda>(p :: 'a list, c :: 'a, j :: nat). j))" by simp
next
  fix p :: "'a list" and c :: 'a and j :: nat
  assume "0 < j \<and> charAt p j \<noteq> Some c"
  then have j: "0 < j" by simp
  have bound: "(case find P (rev [0..<n]) of Some l \<Rightarrow> l | None \<Rightarrow> 0) < n"
    if "0 < n" for P and n :: nat
  proof (cases "find P (rev [0..<n])")
    case None
    then show ?thesis using that by simp
  next
    case (Some l)
    then have "l \<in> set (rev [0..<n])" by (metis find_Some_iff nth_mem)
    then show ?thesis using Some by simp
  qed
  have "longestBorder (take j p) < j"
  proof (cases "take j p = []")
    case True
    then show ?thesis using j by (simp add: longestBorder_def)
  next
    case False
    then have "0 < length (take j p)" by simp
    from bound [OF this] have "longestBorder (take j p) < length (take j p)"
      by (simp only: longestBorder_def)
    then show ?thesis by simp
  qed
  then show "((p, c, failureTable p j), (p, c, j)) \<in> measure (\<lambda>(p, c, j). j)"
    by (simp add: failureTable_def)
qed

declare fallBack.simps [simp del]

text \<open>
  Modelled from the spec: the scan of \<open>findAll\<close> (\<open>KMP.js\<close> is missing). The text is
  read from left to right; \<open>i\<close> is the index of the next character and
  \<open>j\<close> the matched-prefix length. When \<open>j\<close> reaches the length of the pattern the start
  of the match is recorded, and the scan goes on with the table's value for a full match.
\<close>

fun scan :: "'a list \<Rightarrow> 'a list \<Rightarrow> nat \<Rightarrow> nat \<Rightarrow> nat list" where
  "scan p [] i j = []"
| "scan p (c # cs) i j =
     (let j1 = fallBack p c j;
          j2 = (if charAt p j1 = Some c then j1 + 1 else j1)
      in if j2 = length p
         then (i + 1 - length p) # scan p cs (i + 1) (failureTable p j2)
         else scan p cs (i + 1) j2)"

text \<open>
  Modelled from the spec: \<open>PatternMatcher.findAll\<close>, the \<open>kmpSearch\<close> of the missing
  \<open>KMP.js\<close>. An empty pattern gives the empty match list.
\<close>

definition findAll :: "'a list \<Rightarrow> 'a list \<Rightarrow> nat list" where
  "findAll txt pat = (if pat = [] then [] else scan pat txt 0 0)"

section \<open>SpellChecker.js: the spelling corrector\<close>

text \<open>
  Modelled from the spec: \<open>SpellChecker.js\<close>, which exports \<open>getCorrection\<close>, is not among
  the sources. The definitions below follow the words of the specification of
  \<open>SpellCorrector.correct\<close>: the edit distance counts single-character insertions,
  deletions and substitutions; both words are compared in lower case; the first word of
  the vocabulary at the least distance is returned, unless the word is in the vocabulary
  or that distance is larger than the maximum.
\<close>

fun editDistance :: "string \<Rightarrow> string \<Rightarrow> nat" where
  "editDistance [] ys = length ys"
| "editDistance (x # xs) [] = length (x # xs)"
| "editDistance (x # xs) (y # ys) =
     min (min (editDistance xs (y # ys) + 1) (editDistance (x # xs) ys + 1))
         (editDistance xs ys + (if x = y then 0 else 1))"

text \<open>
  Modelled from the spec: the candidate of \<open>SpellCorrector.correct\<close> (\<open>SpellChecker.js\<close> is
  missing): the word of the vocabulary at the least distance with that distance, the first
  one in the order of the vocabulary when several are at that distance.
\<close>

fun closest :: "string \<Rightarrow> string list \<Rightarrow> (nat \<times> string) option" where
  "closest word [] = None"
| "closest word (v # vs) =
     (let d = editDistance (toLowerCase word) (toLowerCase v)
      in case closest word vs of
           None \<Rightarrow> Some (d, v)
         | Some (d', v') \<Rightarrow> (if d \<le> d' then Some (d, v) else Some (d', v')))"

text \<open>
  Modelled from the spec: \<open>SpellCorrector.correct\<close>, the \<open>getCorrection\<close> of the missing
  \<open>SpellChecker.js\<close>. A word of the vocabulary is returned unchanged; so is a word whose
  closest candidate is further away than the maximum distance.
\<close>

definition correct :: "string \<Rightarrow> string list \<Rightarrow> nat \<Rightarrow> string" where
  "correct word vocabulary maxDistance =
     (if word \<in> set vocabulary then word
      else (case closest word vocabulary of
              None \<Rightarrow> word
            | Some (d, v) \<Rightarrow> (if d > maxDistance then word else v)))"

section \<open>Notions used in the proofs\<close>

text \<open>Every key on every edge below a node satisfies a predicate.\<close>

fun keysAll :: "(char \<Rightarrow> bool) \<Rightarrow> TrieNode \<Rightarrow> bool"
  and keysAllEntries :: "(char \<Rightarrow> bool) \<Rightarrow> (char \<times> TrieNode) list \<Rightarrow> bool"
where
  "keysAll P (TrieNode cs e) = keysAllEntries P cs"
| "keysAllEntries P [] = True"
| "keysAllEntries P ((c, n) # cs) = (P c \<and> keysAll P n \<and> keysAllEntries P cs)"

text \<open>
  The characters that the parser of patterns does not read as pattern characters, and the
  terms of a pattern that is a sequence of pattern characters.
\<close>

definition isSyntaxCharacter :: "char \<Rightarrow> bool" where
  "isSyntaxCharacter c = (c \<in> set ''|^$*+?.()[]{}'' \<or> c = CHR 0x5C)"

definition literalTerms :: "string \<Rightarrow> rterm list" where
  "literalTerms lit = map (\<lambda>c. Atom (PatternCharacter c) Once) lit"

text \<open>The matched-prefix length after one character of the text, as \<open>scan\<close> computes it.\<close>

definition stepJ :: "'a list \<Rightarrow> 'a \<Rightarrow> nat \<Rightarrow> nat" where
  "stepJ p c j = (let j1 = fallBack p c j in if charAt p j1 = Some c then j1 + 1 else j1)"

section \<open>The trie\<close>

subsection \<open>Lower case\<close>

lemma toLowerChar_idem: "toLowerChar (toLowerChar c) = toLowerChar c"
  by (auto simp: toLowerChar_def Let_def)

lemma toLowerCase_idem: "toLowerCase (toLowerCase s) = toLowerCase s"
  by (simp add: toLowerCase_def toLowerChar_idem)

subsection \<open>The children of a node\<close>

lemma map_of_updChild:
  "map_of (updChild k v cs) k' =
     (if k' = k then (case map_of cs k of None \<Rightarrow> None | Some _ \<Rightarrow> Some v) else map_of cs k')"
  by (induction cs) (auto split: option.splits)

lemma map_of_addChild_other: "k' \<noteq> k \<Longrightarrow> map_of (addChild k v cs) k' = map_of cs k'"
  by (induction cs) auto

lemma map_of_addChild_same: "map_of cs k = None \<Longrightarrow> map_of (addChild k v cs) k = Some v"
  by (induction cs) (auto split: if_splits)

lemma updChild_updChild: "updChild k v (updChild k v' cs) = updChild k v cs"
  by (induction cs) auto

lemma updChild_addChild:
  "map_of cs k = None \<Longrightarrow> updChild k v (addChild k v' cs) = addChild k v cs"
  by (induction cs) (auto split: if_splits)

subsection \<open>Insertion\<close>

lemma insertFrom_idem: "insertFrom w (insertFrom w node) = insertFrom w node"
proof (induction w arbitrary: node)
  case Nil
  show ?case by (cases node) simp
next
  case (Cons ch w)
  obtain cs e where node: "node = TrieNode cs e" by (cases node)
  show ?case
  proof (cases "map_of cs ch")
    case None
    then show ?thesis
      using Cons.IH [of newTrieNode]
      by (simp add: node map_of_addChild_same updChild_addChild)
  next
    case (Some n)
    then show ?thesis
      using Cons.IH [of n]
      by (simp add: node map_of_updChild updChild_updChild)
  qed
qed

lemma isEnd_insertFrom: "isEnd n \<Longrightarrow> isEnd (insertFrom w n)"
  by (cases n; cases w) (auto split: option.splits)

lemma walk_insertFrom_same: "\<exists>m. walk w (insertFrom w n) = Some m \<and> isEnd m"
proof (induction w arbitrary: n)
  case Nil
  show ?case by (cases n) simp
next
  case (Cons ch w)
  obtain cs e where n: "n = TrieNode cs e" by (cases n)
  show ?case
  proof (cases "map_of cs ch")
    case None
    then show ?thesis using Cons.IH [of newTrieNode]
      by (simp add: n map_of_addChild_same)
  next
    case (Some c)
    then show ?thesis using Cons.IH [of c]
      by (simp add: n map_of_updChild)
  qed
qed

lemma walk_insertFrom_other:
  "walk p n = Some m \<Longrightarrow> isEnd m \<Longrightarrow> \<exists>m'. walk p (insertFrom w n) = Some m' \<and> isEnd m'"
proof (induction p arbitrary: n w)
  case Nil
  then show ?case by (simp add: isEnd_insertFrom)
next
  case (Cons c p)
  obtain cs e where n: "n = TrieNode cs e" by (cases n)
  from Cons.prems obtain n1 where n1: "map_of cs c = Some n1" and w1: "walk p n1 = Some m"
    by (auto simp: n split: option.splits)
  show ?case
  proof (cases w)
    case Nil
    then show ?thesis using n1 w1 Cons.prems(2) by (simp add: n)
  next
    case (Cons d w')
    show ?thesis
    proof (cases "map_of cs d")
      case None
      then have "d \<noteq> c" using n1 by auto
      then show ?thesis using None n1 w1 Cons.prems(2)
        by (simp add: n Cons map_of_addChild_other)
    next
      case (Some nd)
      show ?thesis
      proof (cases "d = c")
        case True
        then have "nd = n1" using Some n1 by simp
        then show ?thesis using Some n1 True Cons.IH [OF w1 Cons.prems(2), of w']
          by (simp add: n Cons map_of_updChild)
      next
        case False
        then show ?thesis using Some n1 w1 Cons.prems(2)
          by (simp add: n Cons map_of_updChild)
      qed
    qed
  qed
qed

lemma root_foldl_snoc:
  "root (foldl insert_word t (xs @ [x])) =
     insertFrom (toLowerCase x) (root (foldl insert_word t xs))"
  by (simp add: insert_word_def)

lemma walk_foldl_insert:
  "w \<in> set ws \<Longrightarrow>
     \<exists>m. walk (toLowerCase w) (root (foldl insert_word t ws)) = Some m \<and> isEnd m"
proof (induction ws rule: rev_induct)
  case Nil
  then show ?case by simp
next
  case (snoc x xs)
  show ?case
  proof (cases "w = x")
    case True
    then show ?thesis using walk_insertFrom_same by (simp only: root_foldl_snoc)
  next
    case False
    then have "w \<in> set xs" using snoc.prems by simp
    from snoc.IH [OF this] obtain m where
      "walk (toLowerCase w) (root (foldl insert_word t xs)) = Some m" "isEnd m" by blast
    from walk_insertFrom_other [OF this] show ?thesis by (simp only: root_foldl_snoc)
  qed
qed

subsection \<open>The keys of a trie built by insertion are in lower case\<close>

lemma keysAllEntries_addChild:
  "keysAllEntries P (addChild k v cs) = (P k \<and> keysAll P v \<and> keysAllEntries P cs)"
  by (induction k v cs rule: addChild.induct) auto

lemma keysAllEntries_updChild:
  "keysAllEntries P cs \<Longrightarrow> keysAll P v \<Longrightarrow> keysAllEntries P (updChild k v cs)"
  by (induction cs) auto

lemma keysAllEntries_map_of:
  "keysAllEntries P cs \<Longrightarrow> map_of cs k = Some n \<Longrightarrow> keysAll P n"
  by (induction cs) (auto split: if_splits)

lemma keysAll_insertFrom:
  "keysAll P n \<Longrightarrow> list_all P w \<Longrightarrow> keysAll P (insertFrom w n)"
proof (induction w arbitrary: n)
  case Nil
  then show ?case by (cases n) simp
next
  case (Cons ch w)
  obtain cs e where n: "n = TrieNode cs e" by (cases n)
  show ?case
  proof (cases "map_of cs ch")
    case None
    have "keysAll P newTrieNode" by (simp add: newTrieNode_def)
    from Cons.IH [OF this] Cons.prems None show ?thesis
      by (simp add: n keysAllEntries_addChild)
  next
    case (Some c)
    with Cons.prems have "keysAll P c" by (auto simp: n dest: keysAllEntries_map_of)
    from Cons.IH [OF this] Cons.prems Some show ?thesis
      by (simp add: n keysAllEntries_updChild)
  qed
qed

lemma keysAll_walk: "keysAll P n \<Longrightarrow> walk w n = Some m \<Longrightarrow> keysAll P m"
proof (induction w arbitrary: n)
  case Nil
  then show ?case by simp
next
  case (Cons c w)
  then show ?case
    by (cases n) (auto split: option.splits dest: keysAllEntries_map_of)
qed

lemma keysAll_foldl_insert:
  "keysAll (\<lambda>c. toLowerChar c = c) (root (foldl insert_word newTrie ws))"
proof (induction ws rule: rev_induct)
  case Nil
  show ?case by (simp add: newTrie_def newTrieNode_def)
next
  case (snoc x xs)
  have "list_all (\<lambda>c. toLowerChar c = c) (toLowerCase x)"
    by (simp add: toLowerCase_def list_all_iff toLowerChar_idem)
  with snoc show ?case by (simp only: root_foldl_snoc keysAll_insertFrom)
qed

subsection \<open>The traversal\<close>

lemma dfs_limit_reached:
  "limit \<le> int (length results) \<Longrightarrow> dfs pfx limit n path results = results"
  by (cases n) simp

lemma dfs_extends:
  "\<exists>ys. dfs pfx lim n path res = res @ ys"
  "\<exists>ys. dfsEntries pfx lim cs path res = res @ ys"
proof (induction pfx lim n path res and pfx lim cs path res rule: dfs_dfsEntries.induct)
  case (1 pfx limit cs e path results)
  then show ?case by (auto split: if_splits)
next
  case (2 pfx limit path results)
  then show ?case by simp
next
  case (3 pfx limit ch "next" cs path results)
  then show ?case by (metis append.assoc dfsEntries.simps(2))
qed



lemma dfs_shape:
  "keysAll P n \<Longrightarrow> r \<in> set (dfs pfx lim n path res) \<Longrightarrow>
     r \<in> set res \<or> (\<exists>q. r = pfx @ path @ q \<and> list_all P q)"
  "keysAllEntries P cs \<Longrightarrow> r \<in> set (dfsEntries pfx lim cs path res) \<Longrightarrow>
     r \<in> set res \<or> (\<exists>q. r = pfx @ path @ q \<and> list_all P q)"
proof (induction pfx lim n path res and pfx lim cs path res rule: dfs_dfsEntries.induct)
  case (1 pfx limit cs e path results)
  show ?case
  proof (cases "limit \<le> int (length results)")
    case True
    then show ?thesis using 1 by simp
  next
    case False
    with 1 have "r \<in> set (if e then results @ [pfx @ path] else results) \<or>
        (\<exists>q. r = pfx @ path @ q \<and> list_all P q)" by simp
    then show ?thesis
      by (auto split: if_splits intro: exI [of _ "[]"])
  qed
next
  case (2 pfx limit path results)
  then show ?case by simp
next
  case (3 pfx limit ch "next" cs path results)
  from 3 have "r \<in> set (dfs pfx limit next (path @ [ch]) results) \<or>
      (\<exists>q. r = pfx @ path @ q \<and> list_all P q)" by simp
  then show ?case
  proof
    assume "r \<in> set (dfs pfx limit next (path @ [ch]) results)"
    with 3 have "r \<in> set results \<or> (\<exists>q. r = pfx @ (path @ [ch]) @ q \<and> list_all P q)" by simp
    then show ?thesis
    proof
      assume "r \<in> set results" then show ?thesis by simp
    next
      assume "\<exists>q. r = pfx @ (path @ [ch]) @ q \<and> list_all P q"
      then obtain q where "r = pfx @ (path @ [ch]) @ q" "list_all P q" by blast
      moreover have "P ch" using 3 by simp
      ultimately have "r = pfx @ path @ (ch # q) \<and> list_all P (ch # q)" by simp
      then show ?thesis by blast
    qed
  next
    assume "\<exists>q. r = pfx @ path @ q \<and> list_all P q" then show ?thesis by simp
  qed
qed

section \<open>The pattern matcher\<close>

lemma find_rev_upt_Some:
  "find P (rev [0..<n]) = Some l \<Longrightarrow> l < n \<and> P l \<and> (\<forall>k. l < k \<and> k < n \<longrightarrow> \<not> P k)"
proof (induction n)
  case 0
  then show ?case by simp
next
  case (Suc n)
  show ?case
  proof (cases "P n")
    case True
    with Suc.prems show ?thesis by auto
  next
    case False
    with Suc.prems have "find P (rev [0..<n]) = Some l" by simp
    from Suc.IH [OF this] False show ?thesis
      by (auto simp: less_Suc_eq)
  qed
qed

lemma find_rev_upt_None: "find P (rev [0..<n]) = None \<Longrightarrow> k < n \<Longrightarrow> \<not> P k"
  by (auto simp: find_None_iff)

lemma suffix_take_iff:
  "l \<le> length s \<Longrightarrow> suffix (take l s) s \<longleftrightarrow> take l s = drop (length s - l) s"
proof
  assume l: "l \<le> length s" and "suffix (take l s) s"
  then obtain zs where zs: "s = zs @ take l s" by (auto simp: suffix_def)
  from arg_cong [OF this, of length] have "length s = length zs + l" using l by simp
  then have "length s - l = length zs" by simp
  moreover have "drop (length zs) (zs @ take l s) = take l s" by simp
  ultimately show "take l s = drop (length s - l) s" using zs by metis
next
  assume "take l s = drop (length s - l) s"
  then show "suffix (take l s) s" by (metis suffix_drop)
qed

lemma longestBorder_less: "s \<noteq> [] \<Longrightarrow> longestBorder s < length s"
proof -
  assume s: "s \<noteq> []"
  let ?P = "\<lambda>l. take l s = drop (length s - l) s"
  have "?P 0" by simp
  with s have "find ?P (rev [0..<length s]) \<noteq> None"
    using find_rev_upt_None [of ?P "length s" 0] by auto
  then obtain l where l: "find ?P (rev [0..<length s]) = Some l" by auto
  from find_rev_upt_Some [OF l] show ?thesis by (simp add: longestBorder_def l)
qed

lemma longestBorder_suffix: "suffix (take (longestBorder s) s) s"
proof (cases "find (\<lambda>l. take l s = drop (length s - l) s) (rev [0..<length s])")
  case None
  then show ?thesis by (simp add: longestBorder_def)
next
  case (Some l)
  from find_rev_upt_Some [OF Some] have eq: "take l s = drop (length s - l) s"
    by simp
  have "suffix (drop (length s - l) s) s" by (rule suffix_drop)
  then have "suffix (take l s) s" by (simp only: eq)
  then show ?thesis by (simp add: longestBorder_def Some)
qed

lemma longestBorder_greatest:
  assumes "l < length s" and "suffix (take l s) s"
  shows "l \<le> longestBorder s"
proof (cases "find (\<lambda>l. take l s = drop (length s - l) s) (rev [0..<length s])")
  case None
  from find_rev_upt_None [OF None assms(1)] assms show ?thesis
    by (simp add: suffix_take_iff)
next
  case (Some b)
  have "take l s = drop (length s - l) s" using assms by (simp add: suffix_take_iff)
  with find_rev_upt_Some [OF Some] assms(1) have "\<not> b < l" by blast
  then show ?thesis by (simp add: longestBorder_def Some)
qed

lemma failureTable_less: "0 < j \<Longrightarrow> j \<le> length p \<Longrightarrow> failureTable p j < j"
proof -
  assume j: "0 < j" "j \<le> length p"
  then have "take j p \<noteq> []" by (cases p) auto
  from longestBorder_less [OF this] j show ?thesis by (simp add: failureTable_def)
qed

lemma failureTable_suffix:
  "j \<le> length p \<Longrightarrow> suffix (take (failureTable p j) p) (take j p)"
proof (cases "j = 0")
  case True
  then show ?thesis by (simp add: failureTable_def longestBorder_def)
next
  case False
  assume j: "j \<le> length p"
  with False have "failureTable p j < j" by (simp add: failureTable_less)
  then have "take (failureTable p j) (take j p) = take (failureTable p j) p" by (simp add: min_def)
  then show ?thesis using longestBorder_suffix [of "take j p"] by (simp add: failureTable_def)
qed

lemma failureTable_greatest:
  assumes "j \<le> length p" and "l < j" and "suffix (take l p) (take j p)"
  shows "l \<le> failureTable p j"
proof -
  have "take l (take j p) = take l p" using assms(2) by (simp add: min_def)
  with assms show ?thesis
    using longestBorder_greatest [of l "take j p"] by (simp add: failureTable_def)
qed

lemma suffix_take_Suc:
  "l < length p \<Longrightarrow> suffix (take (Suc l) p) (s @ [c]) \<longleftrightarrow> suffix (take l p) s \<and> p ! l = c"
  by (auto simp: take_Suc_conv_app_nth)

lemma fallBack_correct:
  assumes "j < length p" and "suffix (take j p) s"
    and "\<And>l. l < length p \<Longrightarrow> suffix (take l p) s \<Longrightarrow> p ! l = c \<Longrightarrow> l \<le> j"
  shows "fallBack p c j < length p \<and> suffix (take (fallBack p c j) p) s \<and>
         (\<forall>l. l < length p \<and> suffix (take l p) s \<and> p ! l = c \<longrightarrow> l \<le> fallBack p c j) \<and>
         (p ! fallBack p c j = c \<or> fallBack p c j = 0)"
  using assms
proof (induction p c j rule: fallBack.induct)
  case (1 p c j)
  show ?case
  proof (cases "0 < j \<and> charAt p j \<noteq> Some c")
    case True
    let ?b = "failureTable p j"
    have jl: "j \<le> length p" using "1.prems"(1) by simp
    have b: "?b < j" using True jl by (simp add: failureTable_less)
    have ne: "p ! j \<noteq> c" using True "1.prems"(1) by (simp add: charAt_def)
    have p1: "?b < length p" using b "1.prems"(1) by simp
    have p2: "suffix (take ?b p) s"
      using failureTable_suffix [OF jl] "1.prems"(2) by (rule suffix_order.trans)
    have p3: "l \<le> ?b" if "l < length p" "suffix (take l p) s" "p ! l = c" for l
    proof -
      have "l \<le> j" using that by (rule "1.prems"(3))
      with ne that(3) have lj: "l < j" by (cases "l = j") auto
      have "suffix (take l p) (take j p)"
      proof (rule suffix_length_suffix)
        show "suffix (take l p) s" by (rule that(2))
        show "suffix (take j p) s" by (rule "1.prems"(2))
        show "length (take l p) \<le> length (take j p)" using lj jl by simp
      qed
      with jl lj show ?thesis by (rule failureTable_greatest)
    qed
    have eq: "fallBack p c j = fallBack p c ?b"
      using True by (subst fallBack.simps) simp
    show ?thesis unfolding eq by (rule "1.IH" [OF True p1 p2 p3])
  next
    case False
    then have eq: "fallBack p c j = j" by (subst fallBack.simps) auto
    from False "1.prems"(1) have "p ! j = c \<or> j = 0" by (auto simp: charAt_def)
    then show ?thesis unfolding eq using "1.prems"(1,2) "1.prems"(3) by simp
  qed
qed

lemma stepJ_correct:
  assumes "j < length p" and "suffix (take j p) s"
    and "\<And>l. l < length p \<Longrightarrow> suffix (take l p) s \<Longrightarrow> l \<le> j"
  shows "stepJ p c j \<le> length p" (is ?A)
    and "suffix (take (stepJ p c j) p) (s @ [c])" (is ?B)
    and "\<And>l. l \<le> length p \<Longrightarrow> suffix (take l p) (s @ [c]) \<Longrightarrow> l \<le> stepJ p c j"
proof -
  let ?j1 = "fallBack p c j"
  have fb: "?j1 < length p \<and> suffix (take ?j1 p) s \<and>
         (\<forall>l. l < length p \<and> suffix (take l p) s \<and> p ! l = c \<longrightarrow> l \<le> ?j1) \<and>
         (p ! ?j1 = c \<or> ?j1 = 0)"
  proof (rule fallBack_correct [OF assms(1,2)])
    fix l assume "l < length p" "suffix (take l p) s"
    then show "l \<le> j" by (rule assms(3))
  qed
  then have f1: "?j1 < length p" and f2: "suffix (take ?j1 p) s"
    and f4: "p ! ?j1 = c \<or> ?j1 = 0"
    by simp_all
  have f3: "l \<le> ?j1" if "l < length p" "suffix (take l p) s" "p ! l = c" for l
    using fb that by blast
  show ?A using f1 by (simp add: stepJ_def Let_def)
  show ?B
  proof (cases "p ! ?j1 = c")
    case True
    then have "stepJ p c j = Suc ?j1" using f1 by (simp add: stepJ_def Let_def charAt_def)
    then show ?thesis using suffix_take_Suc [OF f1, of s c] f2 True by simp
  next
    case False
    with f4 have "?j1 = 0" by simp
    with False f1 show ?thesis by (simp add: stepJ_def Let_def charAt_def)
  qed
  fix l assume l: "l \<le> length p" "suffix (take l p) (s @ [c])"
  show "l \<le> stepJ p c j"
  proof (cases l)
    case 0
    then show ?thesis by simp
  next
    case (Suc l')
    from Suc l(1) have l1: "l' < length p" by simp
    have "suffix (take (Suc l') p) (s @ [c])" using l(2) unfolding Suc .
    with suffix_take_Suc [OF l1, of s c] have "suffix (take l' p) s \<and> p ! l' = c" by blast
    with l1 have l': "l' < length p" "suffix (take l' p) s" "p ! l' = c" by blast+
    then have le: "l' \<le> ?j1" by (rule f3)
    show ?thesis
    proof (cases "p ! ?j1 = c")
      case True
      then show ?thesis using f1 le Suc by (simp add: stepJ_def Let_def charAt_def)
    next
      case False
      with f4 have "?j1 = 0" by simp
      with le have "l' = 0" by simp
      with l'(3) False \<open>?j1 = 0\<close> show ?thesis by simp
    qed
  qed
qed

lemma scan_step:
  "scan p (c # cs) i j =
     (if stepJ p c j = length p
      then (i + 1 - length p) # scan p cs (i + 1) (failureTable p (stepJ p c j))
      else scan p cs (i + 1) (stepJ p c j))"
  by (simp add: stepJ_def Let_def)

lemma scan_correct:
  assumes "p \<noteq> []"
    and "j < length p" and "suffix (take j p) s"
    and "\<And>l. l < length p \<Longrightarrow> suffix (take l p) s \<Longrightarrow> l \<le> j"
  shows "scan p rest (length s) j =
         map (\<lambda>e. e - length p)
           (filter (\<lambda>e. suffix p (take e (s @ rest))) [Suc (length s)..<Suc (length s + length rest)])"
  using assms(2-)
proof (induction rest arbitrary: s j)
  case Nil
  then show ?case by simp
next
  case (Cons c cs)
  let ?j2 = "stepJ p c j"
  let ?s = "s @ [c]"
  note st = stepJ_correct [OF Cons.prems(1,2), where c = c, OF Cons.prems(3)]
  have occ: "suffix p ?s \<longleftrightarrow> ?j2 = length p"
  proof
    assume "suffix p ?s"
    then have "length p \<le> ?j2" using st(3) [of "length p"] by simp
    with st(1) show "?j2 = length p" by simp
  next
    assume "?j2 = length p"
    with st(2) show "suffix p ?s" by simp
  qed
  have upt: "[Suc (length s)..<Suc (length s + length (c # cs))] =
             Suc (length s) # [Suc (length ?s)..<Suc (length ?s + length cs)]"
    by (simp add: upt_conv_Cons del: upt_Suc)
  have tk: "take (Suc (length s)) (s @ c # cs) = ?s" by simp
  have app: "s @ c # cs = ?s @ cs" by simp
  show ?case
  proof (cases "?j2 = length p")
    case True
    let ?b = "failureTable p (length p)"
    have b1: "?b < length p" using assms(1) by (simp add: failureTable_less)
    have bs: "suffix (take ?b p) p" using failureTable_suffix [of "length p" p] by simp
    have b2: "suffix (take ?b p) ?s"
      using bs occ True by (metis suffix_order.trans)
    have b3: "l \<le> ?b" if "l < length p" "suffix (take l p) ?s" for l
    proof -
      have "suffix (take l p) p"
      proof (rule suffix_length_suffix)
        show "suffix (take l p) ?s" by (rule that(2))
        show "suffix p ?s" using occ True by simp
        show "length (take l p) \<le> length p" by simp
      qed
      with that(1) show ?thesis using failureTable_greatest [of "length p" p l] by simp
    qed
    have "scan p cs (length ?s) ?b =
          map (\<lambda>e. e - length p)
            (filter (\<lambda>e. suffix p (take e (?s @ cs))) [Suc (length ?s)..<Suc (length ?s + length cs)])"
      using b1 b2 b3 by (rule Cons.IH)
    then show ?thesis
      using True occ unfolding scan_step upt app
      by (simp del: upt_Suc)
  next
    case False
    with st(1) have j2: "?j2 < length p" by simp
    have m3: "l \<le> ?j2" if "l < length p" "suffix (take l p) ?s" for l
      using that st(3) [of l] by simp
    have "scan p cs (length ?s) ?j2 =
          map (\<lambda>e. e - length p)
            (filter (\<lambda>e. suffix p (take e (?s @ cs))) [Suc (length ?s)..<Suc (length ?s + length cs)])"
      using j2 st(2) m3 by (rule Cons.IH)
    then show ?thesis
      using False occ unfolding scan_step upt app
      by (simp del: upt_Suc)
  qed
qed

lemma findAll_eq:
  assumes "p \<noteq> []"
  shows "findAll t p =
         map (\<lambda>e. e - length p) (filter (\<lambda>e. suffix p (take e t)) [Suc 0..<Suc (length t)])"
proof -
  have "scan p t (length ([] :: 'a list)) 0 =
        map (\<lambda>e. e - length p)
          (filter (\<lambda>e. suffix p (take e ([] @ t))) [Suc (length ([] :: 'a list))..<Suc (length ([] :: 'a list) + length t)])"
    by (rule scan_correct) (use assms in auto)
  then show ?thesis using assms by (simp add: findAll_def)
qed

lemma suffix_take_occurrence:
  assumes "e \<le> length t"
  shows "suffix p (take e t) \<longleftrightarrow> length p \<le> e \<and> take (length p) (drop (e - length p) t) = p"
proof
  assume "suffix p (take e t)"
  then obtain zs where zs: "take e t = zs @ p" by (auto simp: suffix_def)
  from arg_cong [OF this, of length] have len: "e = length zs + length p" using assms by simp
  have "take e t @ drop e t = t" by (rule append_take_drop_id)
  then have t: "t = zs @ p @ drop e t" using zs by simp
  have "drop (length zs) (zs @ p @ drop e t) = p @ drop e t" by simp
  then have "drop (length zs) t = p @ drop e t" using t by simp
  then show "length p \<le> e \<and> take (length p) (drop (e - length p) t) = p" using len by simp
next
  assume a: "length p \<le> e \<and> take (length p) (drop (e - length p) t) = p"
  then have "e - length p + length p = e" by simp
  then have "take e t = take (e - length p) t @ take (length p) (drop (e - length p) t)"
    using take_add [of "e - length p" "length p" t] by simp
  with a show "suffix p (take e t)" by (simp add: suffix_def)
qed

lemma sorted_map_diff_filter:
  "sorted_wrt (<) (xs :: nat list) \<Longrightarrow> \<forall>x \<in> set xs. P x \<longrightarrow> m \<le> x \<Longrightarrow>
   sorted_wrt (<) (map (\<lambda>e. e - m) (filter P xs))"
proof (induction xs)
  case Nil
  then show ?case by simp
next
  case (Cons a xs)
  have "a - m < x - m" if "x \<in> set xs" "P a" for x
  proof -
    from Cons.prems that have "a < x" "m \<le> a" by auto
    then show ?thesis by arith
  qed
  with Cons show ?case by auto
qed

section \<open>The handler of text changes on a token without syntax characters\<close>

text \<open>
  When the last token has no character of the pattern syntax and the correction has no
  dollar sign, the pattern built from the token matches the token at the end of the text
  and nowhere before, and the handler replaces it there by the correction.
\<close>

lemma parsePattern_plain:
  "\<forall>c \<in> set lit. \<not> isSyntaxCharacter c \<Longrightarrow>
     parsePattern (lit @ rest) cur alts = parsePattern rest (rev (literalTerms lit) @ cur) alts"
proof (induction lit arbitrary: cur)
  case Nil
  show ?case by (simp add: literalTerms_def)
next
  case (Cons c lit)
  from Cons.prems have c: "\<not> isSyntaxCharacter c" and rest: "\<forall>c \<in> set lit. \<not> isSyntaxCharacter c"
    by simp_all
  from c have "parsePattern ((c # lit) @ rest) cur alts =
      parsePattern (lit @ rest) (Atom (PatternCharacter c) Once # cur) alts"
    by (simp add: isSyntaxCharacter_def)
  also have "\<dots> = parsePattern rest (rev (literalTerms lit) @ Atom (PatternCharacter c) Once # cur) alts"
    by (rule Cons.IH [OF rest])
  finally show ?case by (simp add: literalTerms_def)
qed

lemma newRegExp_plain:
  assumes "\<forall>c \<in> set lit. \<not> isSyntaxCharacter c"
  shows "newRegExp (lit @ ''$'') = Inr [literalTerms lit @ [LineEnd]]"
  using parsePattern_plain [OF assms, of "''$''" "[]" "[]"] by (simp add: newRegExp_def)

lemma matchTerms_literal:
  "matchTerms (literalTerms lit @ [LineEnd]) s b = (if s = lit then Some [] else None)"
proof (induction lit arbitrary: s b)
  case Nil
  show ?case by (simp add: literalTerms_def)
next
  case (Cons c lit)
  show ?case
  proof (cases s)
    case Nil
    then show ?thesis by (simp add: literalTerms_def)
  next
    case (Cons d ds)
    then show ?thesis using Cons.IH [of ds False] by (auto simp: literalTerms_def)
  qed
qed

lemma execFrom_literal:
  "execFrom [literalTerms lit @ [LineEnd]] pre s =
     (if suffix lit s then Some (pre @ take (length s - length lit) s, lit, []) else None)"
proof (induction s arbitrary: pre)
  case Nil
  show ?case by (simp add: matchTerms_literal)
next
  case (Cons c cs)
  show ?case
  proof (cases "c # cs = lit")
    case True
    then show ?thesis by (auto simp: matchTerms_literal)
  next
    case False
    then have sf: "suffix lit (c # cs) \<longleftrightarrow> suffix lit cs" by (auto simp: suffix_Cons)
    have "take (length (c # cs) - length lit) (c # cs) = c # take (length cs - length lit) cs"
      if "suffix lit cs"
    proof -
      from that have "length lit \<le> length cs" by (rule suffix_length_le)
      then have "length (c # cs) - length lit = Suc (length cs - length lit)" by simp
      then show ?thesis by simp
    qed
    then show ?thesis using False sf Cons.IH [of "pre @ [c]"]
      by (simp add: matchTerms_literal)
  qed
qed

lemma getSubstitution_plain:
  "CHR ''$'' \<notin> set r \<Longrightarrow> getSubstitution a b c r = r"
  by (induction a b c r rule: getSubstitution.induct) auto

lemma replaceRegExp_plain:
  assumes "\<forall>c \<in> set lit. \<not> isSyntaxCharacter c" and "CHR ''$'' \<notin> set replacement"
    and "suffix lit v"
  shows "replaceRegExp (lit @ ''$'') replacement v = Inr (take (length v - length lit) v @ replacement)"
  using assms(3)
  by (simp add: replaceRegExp_def newRegExp_plain [OF assms(1)] execFrom_literal
      getSubstitution_plain [OF assms(2)])

lemma splitFrom_nonempty: "splitFrom b s \<noteq> []"
  by (induction s arbitrary: b) (auto split: list.splits)

lemma splitFrom_single: "splitFrom False s = [w] \<Longrightarrow> w = s"
proof (induction s arbitrary: w)
  case Nil
  then show ?case by simp
next
  case (Cons c cs)
  show ?case
  proof (cases "isWhiteSpace c")
    case True
    with Cons.prems show ?thesis using splitFrom_nonempty [of True cs] by simp
  next
    case False
    with Cons.prems obtain w' where "splitFrom False cs = [w']" "w = c # w'"
      using splitFrom_nonempty [of False cs] by (auto split: list.splits)
    with Cons.IH show ?thesis by simp
  qed
qed

lemma last_splitFrom_suffix: "suffix (last (splitFrom b s)) s"
proof (induction s arbitrary: b)
  case Nil
  show ?case by simp
next
  case (Cons c cs)
  show ?case
  proof (cases "isWhiteSpace c")
    case True
    then have "last (splitFrom b (c # cs)) = last (splitFrom True cs)"
      using splitFrom_nonempty [of True cs] by simp
    then show ?thesis using Cons.IH [of True] by (simp add: suffix_Cons)
  next
    case False
    obtain w ws where sp: "splitFrom False cs = w # ws"
      using splitFrom_nonempty [of False cs] by (cases "splitFrom False cs") auto
    show ?thesis
    proof (cases ws)
      case Nil
      with sp have "w = cs" by (simp add: splitFrom_single)
      with False sp Nil show ?thesis by simp
    next
      case (Cons x xs)
      with False sp have "last (splitFrom b (c # cs)) = last (splitFrom False cs)" by simp
      then show ?thesis using Cons.IH [of False] by (simp add: suffix_Cons)
    qed
  qed
qed

lemma handleTextChange_plain:
  assumes "lastWord = last (splitWhitespace v)" and "2 < length lastWord"
    and "\<forall>c \<in> set lastWord. \<not> isSyntaxCharacter c"
    and "CHR ''$'' \<notin> set (getCorrection lastWord)"
  shows "handleTextChange getCorrection trie v st =
         Inr (st\<lparr>suggestions := getSuggestions trie lastWord 3,
                 textValue := (if getCorrection lastWord \<noteq> lastWord
                               then take (length v - length lastWord) v @ getCorrection lastWord
                               else v)\<rparr>)"
proof -
  have "suffix lastWord v" unfolding assms(1) splitWhitespace_def by (rule last_splitFrom_suffix)
  from replaceRegExp_plain [OF assms(3,4) this] assms(1,2) show ?thesis
    by (simp add: handleTextChange_def Let_def)
qed

section \<open>Evaluations\<close>

text \<open>The specification's scenario for the pattern matcher.\<close>

lemma findAll_scenario: "findAll ''banana bandana band'' ''ban'' = [0, 7, 15]"
  by code_simp

text \<open>Matches may overlap.\<close>

lemma findAll_overlapping: "findAll ''aaaa'' ''aa'' = [0, 1, 2]"
  by code_simp

text \<open>The preloaded trie answers in the order of insertion.\<close>

lemma getSuggestions_seed: "getSuggestions seedTrie ''app'' 3 = [''apple'', ''application'', ''appetite'']"
  by code_simp

lemma getSuggestions_seed_capital: "getSuggestions seedTrie ''App'' 3 = [''Apple'', ''Application'', ''Appetite'']"
  by code_simp

lemma walk_seed_none: "walk (toLowerCase ''xyz'') (root seedTrie) = None"
  by code_simp

text \<open>
  A token without characters of the pattern syntax: the corrector gives \<open>banana\<close> for
  \<open>banan\<close>, and the handler replaces the token at the end of the text.
\<close>

lemma handleTextChange_plain_token:
  "handleTextChange (\<lambda>w. correct w seedWords 2) seedTrie ''I like banan'' initialEditor
     = Inr (initialEditor\<lparr>suggestions := [''banana''], textValue := ''I like banana''\<rparr>)"
  by code_simp

section \<open>The claims\<close>

text \<open>
  C1 (as amended). For every text and every non-empty pattern, an offset is returned by
  \<open>findAll\<close> exactly when the substring of the text of the pattern's length at the
  offset is the pattern (every returned offset is an occurrence and no occurrence is
  omitted), and the returned offsets are strictly increasing.
\<close>

theorem findAll_correct:
  assumes "p \<noteq> []"
  shows "(\<forall>offset. offset \<in> set (findAll t p) \<longleftrightarrow> take (length p) (drop offset t) = p) \<and>
         sorted_wrt (<) (findAll t p)"
proof (intro conjI allI)
  fix offset
  show "offset \<in> set (findAll t p) \<longleftrightarrow> take (length p) (drop offset t) = p"
  proof
    assume "offset \<in> set (findAll t p)"
    then have "offset \<in> (\<lambda>e. e - length p) ` {e \<in> set [Suc 0..<Suc (length t)]. suffix p (take e t)}"
      unfolding findAll_eq [OF assms] by (simp only: set_map set_filter)
    then obtain e where "offset = e - length p" "e \<in> set [Suc 0..<Suc (length t)]"
      "suffix p (take e t)" by blast
    then have e: "offset = e - length p" "suffix p (take e t)" "0 < e" "e \<le> length t"
      by (simp_all del: upt_Suc)
    then show "take (length p) (drop offset t) = p" by (simp add: suffix_take_occurrence)
  next
    assume occ: "take (length p) (drop offset t) = p"
    from arg_cong [OF occ, of length]
    have "length p = min (length p) (length t - offset)" by simp
    then have le: "offset + length p \<le> length t" using assms by (cases "length p") auto
    let ?e = "offset + length p"
    have "suffix p (take ?e t)" using le occ by (simp add: suffix_take_occurrence)
    moreover have "Suc 0 \<le> ?e" using assms by (cases p) simp_all
    ultimately have "?e \<in> set (filter (\<lambda>e. suffix p (take e t)) [Suc 0..<Suc (length t)])"
      using le by (simp del: upt_Suc)
    then have "?e - length p \<in> set (findAll t p)"
      unfolding findAll_eq [OF assms] set_map by (rule imageI)
    then show "offset \<in> set (findAll t p)" by simp
  qed
next
  have "sorted_wrt (<) [Suc 0..<Suc (length t)]" by (simp del: upt_Suc)
  then show "sorted_wrt (<) (findAll t p)"
    unfolding findAll_eq [OF assms]
    by (rule sorted_map_diff_filter) (simp add: suffix_take_occurrence del: upt_Suc)
qed

text \<open>The theorem at the text \<open>banana bandana band\<close> and the pattern \<open>ban\<close>.\<close>

theorem findAll_correct_witness:
  "''ban'' \<noteq> [] \<and>
   (\<forall>offset. offset \<in> set (findAll ''banana bandana band'' ''ban'') \<longleftrightarrow>
      take (length ''ban'') (drop offset ''banana bandana band'') = ''ban'') \<and>
   sorted_wrt (<) (findAll ''banana bandana band'' ''ban'')"
proof -
  have ne: "''ban'' \<noteq> []" by simp
  from ne findAll_correct [OF ne, of "''banana bandana band''"] show ?thesis by blast
qed

text \<open>
  For the empty pattern the claim as stated fails: the substring of length 0 at offset 0
  of the text \<open>a\<close> is the pattern, and the offset is not returned.
\<close>

theorem findAll_empty_pattern_counterexample:
  "take (length ([] :: string)) (drop 0 ''a'') = [] \<and> 0 \<notin> set (findAll ''a'' ([] :: string))"
  by (simp add: findAll_def)




text \<open>
  C3. After the words of a list have been inserted into a trie, \<open>getSuggestions\<close> with a
  word of the list as the prefix and a limit of at least 1 returns a sequence that
  contains the word.
\<close>

theorem getSuggestions_contains_inserted:
  assumes "w \<in> set ws" and "1 \<le> limit"
  shows "w \<in> set (getSuggestions (foldl insert_word t ws) w limit)"
proof -
  from walk_foldl_insert [OF assms(1)] obtain m where
    m: "walk (toLowerCase w) (root (foldl insert_word t ws)) = Some m" "isEnd m" by blast
  obtain cs where mc: "m = TrieNode cs True" using m(2) by (cases m) simp
  obtain ys where "dfsEntries w limit cs [] [w] = [w] @ ys" using dfs_extends(2) by blast
  then show ?thesis using m(1) assms(2) by (simp add: getSuggestions_def mc)
qed

text \<open>The theorem at the preloaded words, the word \<open>band\<close> and the limit 1.\<close>

theorem getSuggestions_contains_inserted_witness:
  "''band'' \<in> set seedWords \<and> (1 :: int) \<le> 1 \<and>
   ''band'' \<in> set (getSuggestions seedTrie ''band'' 1)"
proof -
  have mem: "''band'' \<in> set seedWords" by (simp add: seedWords_def)
  have lim: "(1 :: int) \<le> 1" by simp
  from getSuggestions_contains_inserted [OF mem lim, of newTrie] mem lim
  show ?thesis by (simp only: seedTrie_def simp_thms)
qed

text \<open>
  C4. \<open>insert\<close> is idempotent: for every trie and every word, inserting the word a second
  time leaves the trie as the first insertion left it (the same nodes, children and
  end-of-word flags). The function is total: there is no error.
\<close>

theorem insert_idempotent: "insert_word (insert_word t w) w = insert_word t w"
  by (simp add: insert_word_def insertFrom_idem)

text \<open>
  C5. The handler builds its regular expression from the last token as it is. With the
  corrector of the specification over the preloaded words, the text \<open>cat ca|\<close> has the
  last token \<open>ca|\<close>, whose correction \<open>cat\<close> differs from it; the pattern \<open>ca|$\<close> matches
  the first \<open>ca\<close> of the text, and the text becomes \<open>catt ca|\<close>: the token at the end of the
  text is not replaced. For the text \<open>is it a cat?\<close> the pattern \<open>cat?$\<close> matches nowhere,
  and the text stays as it is although the correction \<open>cat\<close> differs from the token.
\<close>

theorem handleTextChange_token_as_pattern:
  "correct ''ca|'' seedWords 2 = ''cat'' \<and>
   handleTextChange (\<lambda>w. correct w seedWords 2) seedTrie ''cat ca|'' initialEditor
     = Inr (initialEditor\<lparr>suggestions := [], textValue := ''catt ca|''\<rparr>) \<and>
   correct ''cat?'' seedWords 2 = ''cat'' \<and>
   handleTextChange (\<lambda>w. correct w seedWords 2) seedTrie ''is it a cat?'' initialEditor
     = Inr (initialEditor\<lparr>suggestions := [], textValue := ''is it a cat?''\<rparr>)"
  by code_simp

text \<open>
  C6. Whenever the search pattern is empty after trimming, the effect sets the match list
  to the empty sequence and the current-match index to \<open>-1\<close>.
\<close>

theorem searchUpdate_empty_pattern:
  "trim (pattern st) = [] \<Longrightarrow>
     matches (searchUpdate kmpSearch st) = [] \<and> current (searchUpdate kmpSearch st) = - 1 \<and>
     current (searchUpdate kmpSearch st) \<noteq> 0"
  by (simp add: searchUpdate_def)

text \<open>The theorem at a pattern of two spaces, with matches on display beforehand.\<close>

theorem searchUpdate_empty_pattern_witness:
  "trim (pattern (initialEditor\<lparr>pattern := ''  '', matches := [0, 7], current := 1\<rparr>)) = [] \<and>
   matches (searchUpdate findAll (initialEditor\<lparr>pattern := ''  '', matches := [0, 7], current := 1\<rparr>)) = [] \<and>
   current (searchUpdate findAll (initialEditor\<lparr>pattern := ''  '', matches := [0, 7], current := 1\<rparr>)) = - 1"
proof -
  have e: "trim (pattern (initialEditor\<lparr>pattern := ''  '', matches := [0, 7], current := 1\<rparr>)) = []"
    by code_simp
  from e searchUpdate_empty_pattern [OF e, of findAll] show ?thesis by blast
qed

text \<open>
  C7. With \<open>n\<close> matches and a current index \<open>c\<close> with \<open>0 \<le> c < n\<close>, \<open>Next\<close> sets the
  index to \<open>(c + 1) mod n\<close> and \<open>Prev\<close> sets it to \<open>(c - 1 + n) mod n\<close>; with no match both
  set it to \<open>-1\<close>.
\<close>

theorem navigation_cyclic:
  "(0 \<le> current st \<and> current st < int (length (matches st)) \<longrightarrow>
      current (nextMatch st) = (current st + 1) mod int (length (matches st)) \<and>
      current (prevMatch st) = (current st - 1 + int (length (matches st))) mod int (length (matches st))) \<and>
   (length (matches st) = 0 \<longrightarrow> current (nextMatch st) = - 1 \<and> current (prevMatch st) = - 1)"
proof (intro conjI impI)
  assume c: "0 \<le> current st \<and> current st < int (length (matches st))"
  then have n: "length (matches st) \<noteq> 0" by auto
  have r: "jsRem a b = a mod b" if "0 \<le> a" "0 < b" for a b
    using that by (cases "a = 0") (simp_all add: jsRem_def)
  show "current (nextMatch st) = (current st + 1) mod int (length (matches st))"
    using c n by (simp add: nextMatch_def r)
  show "current (prevMatch st) = (current st - 1 + int (length (matches st))) mod int (length (matches st))"
    using c n by (simp add: prevMatch_def r)
next
  assume "length (matches st) = 0"
  then show "current (nextMatch st) = - 1" by (simp add: nextMatch_def)
next
  assume "length (matches st) = 0"
  then show "current (prevMatch st) = - 1" by (simp add: prevMatch_def)
qed

text \<open>
  The theorem at three matches with the last one current (\<open>Next\<close> wraps to 0, \<open>Prev\<close>
  goes to 1), with the first one current (\<open>Prev\<close> wraps to 2), and at no match.
\<close>

theorem navigation_cyclic_witness:
  "current (nextMatch (initialEditor\<lparr>matches := [0, 7, 15], current := 2\<rparr>)) = 0 \<and>
   current (prevMatch (initialEditor\<lparr>matches := [0, 7, 15], current := 2\<rparr>)) = 1 \<and>
   current (prevMatch (initialEditor\<lparr>matches := [0, 7, 15], current := 0\<rparr>)) = 2 \<and>
   current (nextMatch initialEditor) = - 1 \<and>
   current (prevMatch initialEditor) = - 1"
  using navigation_cyclic [of "initialEditor\<lparr>matches := [0, 7, 15], current := 2\<rparr>"]
    navigation_cyclic [of "initialEditor\<lparr>matches := [0, 7, 15], current := 0\<rparr>"]
    navigation_cyclic [of initialEditor]
  by (simp add: initialEditor_def)

text \<open>
  C8. With the corrector of the specification over the preloaded words, the text \<open>c++\<close>
  has the last token \<open>c++\<close>, whose correction \<open>cat\<close> differs from it; the pattern \<open>c++$\<close>
  has a quantifier with nothing to repeat, and the handler ends with the \<open>SyntaxError\<close>
  of the \<open>RegExp\<close> constructor.
\<close>

theorem handleTextChange_throws:
  "correct ''c++'' seedWords 2 = ''cat'' \<and>
   newRegExp ''c++$'' = Inl SyntaxError \<and>
   handleTextChange (\<lambda>w. correct w seedWords 2) seedTrie ''c++'' initialEditor = Inl SyntaxError"
  by code_simp

text \<open>
  C9 (as amended). With a negative limit \<open>getSuggestions\<close> returns the empty sequence, as
  an ordinary result.
\<close>

theorem getSuggestions_negative_limit: "limit < 0 \<Longrightarrow> getSuggestions t pfx limit = []"
  by (simp add: getSuggestions_def dfs_limit_reached split: option.splits)

text \<open>The theorem at the preloaded trie, the prefix \<open>app\<close> and the limit \<open>-1\<close>.\<close>

theorem getSuggestions_negative_limit_witness:
  "(- 1 :: int) < 0 \<and> getSuggestions seedTrie ''app'' (- 1) = []"
proof -
  have neg: "(- 1 :: int) < 0" by simp
  from neg getSuggestions_negative_limit [OF neg, of seedTrie "''app''"] show ?thesis by blast
qed

text \<open>
  The claim as stated fails: with the limit \<open>-3\<close> the call returns, and its result is the
  empty sequence.
\<close>

theorem getSuggestions_negative_limit_counterexample:
  "getSuggestions seedTrie ''ban'' (- 3) = []"
  by code_simp

text \<open>
  C10. In a trie built by insertions, every string that \<open>getSuggestions\<close> returns is the
  prefix as it was passed followed by a suffix in lower case; so, when the prefix is not in
  lower case, no returned string is the lower-case form of any word, and none is a word
  that \<open>insert\<close> has stored.
\<close>

theorem getSuggestions_keeps_prefix_casing:
  assumes "r \<in> set (getSuggestions (foldl insert_word newTrie ws) pfx limit)"
  shows "(\<exists>suffix. r = pfx @ suffix \<and> toLowerCase suffix = suffix) \<and>
         (toLowerCase pfx \<noteq> pfx \<longrightarrow> (\<forall>w. r \<noteq> toLowerCase w))"
proof (cases "walk (toLowerCase pfx) (root (foldl insert_word newTrie ws))")
  case None
  with assms show ?thesis by (simp add: getSuggestions_def)
next
  case (Some n)
  let ?P = "\<lambda>c. toLowerChar c = c"
  from assms Some have r: "r \<in> set (dfs pfx limit n [] [])"
    by (simp add: getSuggestions_def)
  have "keysAll ?P n" using keysAll_walk [OF keysAll_foldl_insert Some] .
  from dfs_shape(1) [OF this r] obtain q where q: "r = pfx @ q" "list_all ?P q" by auto
  have low: "toLowerCase q = q" using q(2) by (simp add: toLowerCase_def list_all_iff map_idI)
  have "r \<noteq> toLowerCase w" if "toLowerCase pfx \<noteq> pfx" for w
  proof
    assume "r = toLowerCase w"
    then have "toLowerCase r = r" by (simp add: toLowerCase_idem)
    then have "toLowerCase pfx = pfx" by (simp add: q(1) toLowerCase_def)
    with that show False by simp
  qed
  with q(1) low show ?thesis by blast
qed

text \<open>
  The theorem at the preloaded trie, the prefix \<open>App\<close> and the limit 3: \<open>Apple\<close> is
  returned, and the stored word is \<open>apple\<close>.
\<close>

theorem getSuggestions_keeps_prefix_casing_witness:
  "''Apple'' \<in> set (getSuggestions seedTrie ''App'' 3) \<and>
   (\<exists>suffix. ''Apple'' = ''App'' @ suffix \<and> toLowerCase suffix = suffix) \<and>
   toLowerCase ''App'' \<noteq> ''App'' \<and>
   (\<forall>w. ''Apple'' \<noteq> toLowerCase w)"
proof -
  have mem: "''Apple'' \<in> set (getSuggestions (foldl insert_word newTrie seedWords) ''App'' 3)"
    by code_simp
  have up: "toLowerCase ''App'' \<noteq> ''App''" by code_simp
  from getSuggestions_keeps_prefix_casing [OF mem] mem up show ?thesis
    by (simp only: seedTrie_def simp_thms)
qed

end
